theory Spec2Isabelle
  imports Complex_Main "HOL-Library.DAList" "HOL-Library.Sublist"
begin

section \<open>Strings\<close>

text \<open>
  A Python \<open>str\<close> is a sequence of Unicode code points. A code point is a natural number
  here, so that every character the program can meet (also the ellipsis U+2026 that the
  snippet appends) is a single element. ASCII literals are written \<open>u ''abc''\<close>.
\<close>

type_synonym codepoint = nat
type_synonym str = "codepoint list"

definition u :: "string \<Rightarrow> str" where
  "u s = map of_char s"

text \<open>
  \<open>str.isspace\<close>, \<open>str.split()\<close>, \<open>str.strip()\<close> and the class \<open>\s\<close> of \<open>re\<close> (on a
  \<open>str\<close> pattern) all use the same table of white space characters of CPython.
\<close>

definition is_space :: "codepoint \<Rightarrow> bool" where
  "is_space c = ((9 \<le> c \<and> c \<le> 13) \<or> (28 \<le> c \<and> c \<le> 32) \<or> c = 133 \<or> c = 160 \<or>
     c = 5760 \<or> (8192 \<le> c \<and> c \<le> 8202) \<or> c = 8232 \<or> c = 8233 \<or> c = 8239 \<or>
     c = 8287 \<or> c = 12288)"

text \<open>The characters of the class \<open>[a-z0-9]\<close>.\<close>

definition is_lower_alnum :: "codepoint \<Rightarrow> bool" where
  "is_lower_alnum c = ((97 \<le> c \<and> c \<le> 122) \<or> (48 \<le> c \<and> c \<le> 57))"

text \<open>
  \<open>str.lower()\<close>. On ASCII it maps \<open>A-Z\<close> to \<open>a-z\<close> and leaves the rest. The lower-casing
  of a non-ASCII character comes from the Unicode database of the interpreter, which is
  not part of the repository: it is the parameter \<open>lc\<close>, which receives the whole text
  and the position (the lower case of a capital sigma depends on its context) and returns
  the characters that replace the one at that position (U+0130 becomes two characters).
\<close>

type_synonym unicode_lower = "str \<Rightarrow> nat \<Rightarrow> str"

definition lower_at :: "unicode_lower \<Rightarrow> str \<Rightarrow> nat \<Rightarrow> str" where
  "lower_at lc text i =
     (let c = text ! i
      in if c < 128 then (if 65 \<le> c \<and> c \<le> 90 then [c + 32] else [c]) else lc text i)"

definition lower :: "unicode_lower \<Rightarrow> str \<Rightarrow> str" where
  "lower lc text = concat (map (lower_at lc text) [0..<length text])"

text \<open>A lower-casing table that leaves every non-ASCII character as it is.\<close>

definition lc_keep :: unicode_lower where
  "lc_keep text i = [text ! i]"

text \<open>\<open>str.split()\<close> without arguments: the maximal runs of non-space characters.\<close>

fun split_from :: "str \<Rightarrow> str \<Rightarrow> str list" where
  "split_from cur [] = (if cur = [] then [] else [cur])"
| "split_from cur (c # cs) =
     (if is_space c then (if cur = [] then split_from [] cs else cur # split_from [] cs)
      else split_from (cur @ [c]) cs)"

definition split :: "str \<Rightarrow> str list" where
  "split text = split_from [] text"

text \<open>\<open>str.strip()\<close> without arguments.\<close>

definition strip :: "str \<Rightarrow> str" where
  "strip text = rev (dropWhile is_space (rev (dropWhile is_space text)))"

text \<open>\<open>str.endswith\<close>.\<close>

definition endswith :: "str \<Rightarrow> str \<Rightarrow> bool" where
  "endswith word sfx =
     (length sfx \<le> length word \<and> drop (length word - length sfx) word = sfx)"


section \<open>preprocessor.py\<close>

definition STOP_WORDS :: "str set" where
  "STOP_WORDS = set (map u
    [''a'', ''an'', ''the'', ''and'', ''or'', ''but'', ''if'', ''in'', ''on'', ''at'', ''to'',
     ''for'', ''of'', ''with'', ''by'', ''from'', ''is'', ''it'', ''its'', ''be'', ''was'',
     ''are'', ''were'', ''been'', ''has'', ''have'', ''had'', ''do'', ''does'', ''did'',
     ''will'', ''would'', ''could'', ''should'', ''may'', ''might'', ''shall'', ''can'',
     ''not'', ''no'', ''nor'', ''so'', ''yet'', ''both'', ''either'', ''neither'', ''as'',
     ''up'', ''out'', ''about'', ''into'', ''than'', ''then'', ''that'', ''this'', ''these'',
     ''those'', ''which'', ''who'', ''whom'', ''what'', ''when'', ''where'', ''why'', ''how'',
     ''all'', ''each'', ''every'', ''any'', ''some'', ''such'', ''more'', ''most'', ''also'',
     ''over'', ''under'', ''again'', ''further'', ''once'', ''here'', ''there'', ''just'',
     ''too'', ''very'', ''own'', ''same'', ''other'', ''only'', ''even'', ''after'',
     ''before'', ''during'', ''while'', ''because'', ''although'', ''though'', ''since'',
     ''until'', ''unless'', ''between'', ''through'', ''i'', ''me'', ''my'', ''we'', ''our'',
     ''you'', ''your'', ''he'', ''him'', ''his'', ''she'', ''her'', ''they'', ''them'',
     ''their'', ''us'', ''s'', ''t''])"

text \<open>The rule table of \<open>_stem\<close>, in the order of the source.\<close>

definition suffixes :: "(str \<times> str) list" where
  "suffixes = map (\<lambda>(sfx, replacement). (u sfx, u replacement))
    [(''ational'', ''ate''),
     (''tional'', ''tion''),
     (''enci'', ''ence''),
     (''anci'', ''ance''),
     (''izer'', ''ize''),
     (''ising'', ''ise''),
     (''izing'', ''ize''),
     (''nesses'', ''ness''),
     (''ness'', ''''),
     (''ments'', ''ment''),
     (''ment'', ''''),
     (''ings'', ''ing''),
     (''ing'', ''''),
     (''edly'', ''''),
     (''ingly'', ''''),
     (''ies'', ''y''),
     (''ied'', ''y''),
     (''sses'', ''ss''),
     (''tions'', ''te''),
     (''tion'', ''te''),
     (''ers'', ''er''),
     (''ly'', ''''),
     (''ed'', ''''),
     (''er'', ''''),
     (''es'', ''''),
     (''s'', '''')]"

text \<open>
  The \<open>for\<close> loop of \<open>_stem\<close> over the rules that are left: the first rule whose suffix
  matches and whose stem is long enough returns, every other rule is passed over.
\<close>

fun stem_loop :: "(str \<times> str) list \<Rightarrow> str \<Rightarrow> str" where
  "stem_loop [] word = word"
| "stem_loop ((sfx, replacement) # rules) word =
     (if endswith word sfx then
        (let stem = take (length word - length sfx) word @ replacement
         in if 3 \<le> length stem then stem else stem_loop rules word)
      else stem_loop rules word)"

text \<open>\<open>_stem\<close> (an Isabelle name cannot start with an underscore).\<close>

definition stem :: "str \<Rightarrow> str" where
  "stem word = (if length word \<le> 3 then word else stem_loop suffixes word)"

text \<open>
  The stemmer as the specification words it: the result of the first rule, in the fixed
  order, that matches and whose result has length at least 3; the word itself when there
  is no such rule or when the word has at most 3 characters.
\<close>

definition rule_result :: "str \<Rightarrow> str \<times> str \<Rightarrow> str" where
  "rule_result word rule = take (length word - length (fst rule)) word @ snd rule"

definition rule_applies :: "str \<Rightarrow> str \<times> str \<Rightarrow> bool" where
  "rule_applies word rule = (endswith word (fst rule) \<and> 3 \<le> length (rule_result word rule))"

definition stem_spec :: "str \<Rightarrow> str" where
  "stem_spec word =
     (if length word \<le> 3 then word
      else (case find (rule_applies word) suffixes of
              None \<Rightarrow> word
            | Some rule \<Rightarrow> rule_result word rule))"

text \<open>The filter-and-stem loop of \<open>tokenize\<close> over the words that are left.\<close>

fun tokenize_loop :: "str list \<Rightarrow> str list" where
  "tokenize_loop [] = []"
| "tokenize_loop (word # words) =
     (if length word < 2 then tokenize_loop words
      else if word \<in> STOP_WORDS then tokenize_loop words
      else stem word # tokenize_loop words)"

text \<open>The substitution \<open>re.sub(r"[^a-z0-9\s]", " ", text)\<close>.\<close>

definition sub_non_alnum :: "str \<Rightarrow> str" where
  "sub_non_alnum text = map (\<lambda>c. if is_lower_alnum c \<or> is_space c then c else 32) text"

definition tokenize :: "unicode_lower \<Rightarrow> str \<Rightarrow> str list" where
  "tokenize lc text =
     (if text = [] then []
      else tokenize_loop (split (sub_non_alnum (lower lc text))))"


section \<open>Python values\<close>

text \<open>
  A \<open>dict\<close> keeps its keys distinct and in insertion order: assigning to a key that is
  present replaces the value in place, assigning to a new key appends it. This is the type
  of association lists with distinct keys and its \<open>DAList.update\<close>; \<open>DAList.impl_of\<close>
  is \<open>items()\<close> and \<open>DAList.lookup\<close> is \<open>get\<close>.
\<close>

type_synonym ('k, 'v) dict = "('k, 'v) alist"

definition keys :: "('k, 'v) dict \<Rightarrow> 'k list" where
  "keys d = map fst (DAList.impl_of d)"

text \<open>The exceptions that the ranking code can raise.\<close>

datatype error = ZeroDivisionError | ValueError

text \<open>
  The end of a slice \<open>xs[:k]\<close> of a sequence of length \<open>n\<close>: a negative \<open>k\<close> counts from
  the end, and both are clipped to the sequence.
\<close>

definition slice_end :: "nat \<Rightarrow> int \<Rightarrow> nat" where
  "slice_end n k = (if k < 0 then nat (max 0 (int n + k)) else min n (nat k))"

definition slice_to :: "int \<Rightarrow> 'a list \<Rightarrow> 'a list" where
  "slice_to k xs = take (slice_end (length xs) k) xs"

text \<open>\<open>sep.join(words)\<close>.\<close>

fun join :: "str \<Rightarrow> str list \<Rightarrow> str" where
  "join sep [] = []"
| "join sep [w] = w"
| "join sep (w # ws) = w @ sep @ join sep ws"

text \<open>
  \<open>text.rfind(c, 0, e)\<close> for a single character \<open>c\<close>: the highest index below the end
  \<open>e\<close> of the slice where \<open>c\<close> stands, or \<open>-1\<close>.
\<close>

definition rfind :: "str \<Rightarrow> codepoint \<Rightarrow> int \<Rightarrow> int" where
  "rfind text c e =
     (case filter (\<lambda>i. text ! i = c) (rev [0..<slice_end (length text) e]) of
        [] \<Rightarrow> - 1
      | i # _ \<Rightarrow> int i)"

text \<open>\<open>str(i)\<close> of a natural number, as the f-string \<open>f"doc_{i}"\<close> formats it.\<close>

fun str_of_nat :: "nat \<Rightarrow> str" where
  "str_of_nat n = (if n < 10 then [48 + n] else str_of_nat (n div 10) @ [48 + n mod 10])"

declare str_of_nat.simps [simp del]

text \<open>
  A Python \<open>float\<close> is modelled by a real number: the rounding of the floating-point
  operations is not modelled. \<open>round(x, 4)\<close> rounds to the nearest multiple of
  \<open>10^-4\<close>, a tie to the even one.
\<close>

definition round_half_even :: "real \<Rightarrow> int" where
  "round_half_even x =
     (let f = \<lfloor>x\<rfloor>; r = x - of_int f
      in if r < 1 / 2 then f else if 1 / 2 < r then f + 1 else if even f then f else f + 1)"

definition round4 :: "real \<Rightarrow> real" where
  "round4 x = of_int (round_half_even (x * 10000)) / 10000"


section \<open>config.py\<close>

definition TOP_K_RESULTS :: int where
  "TOP_K_RESULTS = 10"

definition SNIPPET_LENGTH :: int where
  "SNIPPET_LENGTH = 200"


section \<open>indexer.py\<close>

text \<open>
  The metadata of a document is a \<open>dict\<close> with the keys \<open>title\<close>, \<open>url\<close>, \<open>snippet\<close> and
  \<open>length\<close>. \<open>add_document\<close> sets all four; the readers use \<open>get\<close> with a default, so a
  key may be absent (in an index that was loaded from a file).
\<close>

record doc_meta =
  m_title :: "str option"
  m_url :: "str option"
  m_snippet :: "str option"
  m_length :: "int option"

type_synonym Postings = "(str, int list) dict"
type_synonym InvertedIndex = "(str, Postings) dict"
type_synonym Documents = "(str, doc_meta) dict"

record Indexer =
  index :: InvertedIndex
  doc_freq :: "(str, int) dict"
  documents :: Documents

text \<open>\<open>Indexer.__init__\<close>.\<close>

definition Indexer_init :: Indexer where
  "Indexer_init = \<lparr>index = DAList.empty, doc_freq = DAList.empty, documents = DAList.empty\<rparr>"

text \<open>\<open>Indexer._make_snippet\<close>.\<close>

definition make_snippet :: "str \<Rightarrow> int \<Rightarrow> str" where
  "make_snippet text0 len =
     (let text = join (u '' '') (split text0)
      in if int (length text) \<le> len then text
         else (let cut0 = rfind text 32 len;
                   cut = (if cut0 = - 1 then len else cut0)
               in slice_to cut text @ [8230]))"

text \<open>
  The body of the loop \<open>for position, token in enumerate(tokens)\<close> of \<open>add_document\<close>,
  for one token: the position is appended to \<open>index[token][doc_id]\<close>, both levels being
  created when absent, and \<open>doc_freq[token]\<close> is incremented when the token was not seen
  in this document yet.
\<close>

definition add_position :: "str \<Rightarrow> int \<Rightarrow> str \<Rightarrow> InvertedIndex \<Rightarrow> InvertedIndex" where
  "add_position doc_id position token idx =
     (let postings = (case DAList.lookup idx token of None \<Rightarrow> DAList.empty | Some p \<Rightarrow> p);
          positions = (case DAList.lookup postings doc_id of None \<Rightarrow> [] | Some ps \<Rightarrow> ps)
      in DAList.update token (DAList.update doc_id (positions @ [position]) postings) idx)"

definition bump_doc_freq :: "str \<Rightarrow> (str, int) dict \<Rightarrow> (str, int) dict" where
  "bump_doc_freq token df =
     DAList.update token ((case DAList.lookup df token of None \<Rightarrow> 0 | Some n \<Rightarrow> n) + 1) df"

fun add_tokens :: "str \<Rightarrow> int \<Rightarrow> str list \<Rightarrow> str set \<Rightarrow> Indexer \<Rightarrow> Indexer" where
  "add_tokens doc_id position [] seen_in_doc self = self"
| "add_tokens doc_id position (token # tokens) seen_in_doc self =
     (let self1 = self\<lparr>index := add_position doc_id position token (index self)\<rparr>
      in if token \<in> seen_in_doc
         then add_tokens doc_id (position + 1) tokens seen_in_doc self1
         else add_tokens doc_id (position + 1) tokens (insert token seen_in_doc)
                (self1\<lparr>doc_freq := bump_doc_freq token (doc_freq self1)\<rparr>))"

text \<open>\<open>Indexer.add_document\<close>.\<close>

definition add_document :: "unicode_lower \<Rightarrow> Indexer \<Rightarrow> str \<Rightarrow> str \<Rightarrow> str \<Rightarrow> str \<Rightarrow> Indexer" where
  "add_document lc self doc_id title url text =
     (let tokens = tokenize lc text;
          snippet = make_snippet text SNIPPET_LENGTH;
          meta = \<lparr>m_title = Some title, m_url = Some url, m_snippet = Some snippet,
                  m_length = Some (int (length tokens))\<rparr>
      in add_tokens doc_id 0 tokens {}
           (self\<lparr>documents := DAList.update doc_id meta (documents self)\<rparr>))"

text \<open>A crawled page is a \<open>dict\<close> in which each of the three keys may be absent.\<close>

record page =
  p_title :: "str option"
  p_url :: "str option"
  p_text :: "str option"

definition doc_id_of :: "nat \<Rightarrow> str" where
  "doc_id_of i = u ''doc_'' @ str_of_nat i"

definition add_page :: "unicode_lower \<Rightarrow> nat \<Rightarrow> page \<Rightarrow> Indexer \<Rightarrow> Indexer" where
  "add_page lc i pg self =
     add_document lc self (doc_id_of i)
       (case p_title pg of None \<Rightarrow> u ''Untitled'' | Some t \<Rightarrow> t)
       (case p_url pg of None \<Rightarrow> [] | Some a \<Rightarrow> a)
       (case p_text pg of None \<Rightarrow> [] | Some b \<Rightarrow> b)"

text \<open>
  The loop \<open>for i, page in enumerate(crawled_pages)\<close> of \<open>build_from_crawled_data\<close>, from
  the counter \<open>i\<close> on.
\<close>

fun build_loop :: "unicode_lower \<Rightarrow> nat \<Rightarrow> page list \<Rightarrow> Indexer \<Rightarrow> Indexer" where
  "build_loop lc i [] self = self"
| "build_loop lc i (pg # pages) self = build_loop lc (Suc i) pages (add_page lc i pg self)"

text \<open>\<open>Indexer.build_from_crawled_data\<close> (the message it prints is left out).\<close>

definition build_from_crawled_data :: "unicode_lower \<Rightarrow> Indexer \<Rightarrow> page list \<Rightarrow> Indexer" where
  "build_from_crawled_data lc self crawled_pages = build_loop lc 0 crawled_pages self"


section \<open>ranker.py\<close>

text \<open>
  The body of the inner loop of \<open>compute_tfidf_scores\<close>, for one entry of
  \<open>index[term].items()\<close>.
\<close>

definition doc_step :: "real \<Rightarrow> Documents \<Rightarrow> str \<times> int list \<Rightarrow> (str, real) dict \<Rightarrow> (str, real) dict" where
  "doc_step idf docs entry scores =
     (case DAList.lookup docs (fst entry) of
        None \<Rightarrow> scores
      | Some doc_meta \<Rightarrow>
          (let doc_length = (case m_length doc_meta of None \<Rightarrow> 1
                             | Some l \<Rightarrow> if l = 0 then 1 else l);
               tf = real (length (snd entry)) / real_of_int doc_length;
               tfidf = tf * idf
           in DAList.update (fst entry)
                ((case DAList.lookup scores (fst entry) of None \<Rightarrow> 0 | Some s \<Rightarrow> s) + tfidf)
                scores))"

text \<open>
  The outer loop \<open>for term in query_tokens\<close>. The division raises \<open>ZeroDivisionError\<close>
  when \<open>df + 1\<close> is zero and \<open>math.log\<close> raises \<open>ValueError\<close> when its argument is not
  positive; either ends the whole call.
\<close>

fun terms_loop ::
  "str list \<Rightarrow> InvertedIndex \<Rightarrow> (str, int) dict \<Rightarrow> Documents \<Rightarrow> (str, real) dict
     \<Rightarrow> error + (str, real) dict" where
  "terms_loop [] idx dfq docs scores = Inr scores"
| "terms_loop (term # rest) idx dfq docs scores =
     (case DAList.lookup idx term of
        None \<Rightarrow> terms_loop rest idx dfq docs scores
      | Some postings \<Rightarrow>
          (let total_docs = int (length (DAList.impl_of docs));
               df = (case DAList.lookup dfq term of None \<Rightarrow> 0 | Some n \<Rightarrow> n)
           in if df + 1 = 0 then Inl ZeroDivisionError
              else (let ratio = real_of_int (total_docs + 1) / real_of_int (df + 1)
                    in if ratio \<le> 0 then Inl ValueError
                       else terms_loop rest idx dfq docs
                              (fold (doc_step (ln ratio + 1) docs) (DAList.impl_of postings)
                                 scores))))"

text \<open>
  \<open>sorted(scores.items(), key=lambda x: x[1], reverse=True)\<close>: a stable sort, the
  highest score first. With \<open>reverse=True\<close> entries of equal score keep their order, so
  this is the stable ascending sort by the negated score.
\<close>

definition sorted_desc :: "('a \<times> real) list \<Rightarrow> ('a \<times> real) list" where
  "sorted_desc xs = sort_key (\<lambda>x. - snd x) xs"

definition compute_tfidf_scores ::
  "str list \<Rightarrow> InvertedIndex \<Rightarrow> (str, int) dict \<Rightarrow> Documents \<Rightarrow> int
     \<Rightarrow> error + (str \<times> real) list" where
  "compute_tfidf_scores query_tokens idx dfq docs top_k =
     (case terms_loop query_tokens idx dfq docs DAList.empty of
        Inl e \<Rightarrow> Inl e
      | Inr scores \<Rightarrow> Inr (slice_to top_k (sorted_desc (DAList.impl_of scores))))"


section \<open>search_engine.py\<close>

record SearchEngine =
  indexer :: Indexer

record result =
  r_doc_id :: str
  r_title :: str
  r_url :: str
  r_snippet :: str
  r_score :: real

text \<open>The body of the loop of \<open>search\<close> that adds the metadata to one ranked entry.\<close>

definition enrich :: "Documents \<Rightarrow> str \<times> real \<Rightarrow> result" where
  "enrich docs entry =
     (let meta = DAList.lookup docs (fst entry)
      in \<lparr>r_doc_id = fst entry,
          r_title = (case Option.bind meta m_title of None \<Rightarrow> u ''Untitled'' | Some t \<Rightarrow> t),
          r_url = (case Option.bind meta m_url of None \<Rightarrow> u ''#'' | Some a \<Rightarrow> a),
          r_snippet = (case Option.bind meta m_snippet of None \<Rightarrow> [] | Some b \<Rightarrow> b),
          r_score = round4 (snd entry)\<rparr>)"

text \<open>\<open>SearchEngine.search\<close>.\<close>

definition search :: "unicode_lower \<Rightarrow> SearchEngine \<Rightarrow> str \<Rightarrow> int \<Rightarrow> error + result list" where
  "search lc self query top_k =
     (if strip query = [] then Inr []
      else (let query_tokens = tokenize lc query
            in if query_tokens = [] then Inr []
               else (case compute_tfidf_scores query_tokens (index (indexer self))
                            (doc_freq (indexer self)) (documents (indexer self)) top_k of
                       Inl e \<Rightarrow> Inl e
                     | Inr ranked \<Rightarrow> Inr (map (enrich (documents (indexer self))) ranked))))"

text \<open>\<open>SearchEngine.index_stats\<close>: the numbers of documents and of terms.\<close>

definition index_stats :: "SearchEngine \<Rightarrow> nat \<times> nat" where
  "index_stats self =
     (length (DAList.impl_of (documents (indexer self))),
      length (DAList.impl_of (index (indexer self))))"


section \<open>Views of the index, sequences of calls\<close>

text \<open>The position list \<open>index[t][d]\<close>, when both keys are present.\<close>

definition positions :: "InvertedIndex \<Rightarrow> str \<Rightarrow> str \<Rightarrow> int list option" where
  "positions idx t d = (case DAList.lookup idx t of None \<Rightarrow> None | Some p \<Rightarrow> DAList.lookup p d)"

text \<open>\<open>index[t][d]\<close>, or the empty list when a key is absent.\<close>

definition plist :: "InvertedIndex \<Rightarrow> str \<Rightarrow> str \<Rightarrow> int list" where
  "plist idx t d = (case positions idx t d of None \<Rightarrow> [] | Some ps \<Rightarrow> ps)"

text \<open>The positions, counted from \<open>pos\<close>, at which the term \<open>t\<close> stands in a token list.\<close>

fun occurrences :: "int \<Rightarrow> str list \<Rightarrow> str \<Rightarrow> int list" where
  "occurrences pos [] t = []"
| "occurrences pos (tok # toks) t =
     (if tok = t then pos # occurrences (pos + 1) toks t else occurrences (pos + 1) toks t)"

text \<open>The arguments of one call of \<open>add_document\<close>.\<close>

record call =
  c_doc_id :: str
  c_title :: str
  c_url :: str
  c_text :: str

definition add_call :: "unicode_lower \<Rightarrow> call \<Rightarrow> Indexer \<Rightarrow> Indexer" where
  "add_call lc c self = add_document lc self (c_doc_id c) (c_title c) (c_url c) (c_text c)"

text \<open>A sequence of calls of \<open>add_document\<close>, from left to right.\<close>

definition add_documents :: "unicode_lower \<Rightarrow> call list \<Rightarrow> Indexer \<Rightarrow> Indexer" where
  "add_documents lc calls self = fold (add_call lc) calls self"

text \<open>\<open>doc_freq.get(t, 0)\<close>.\<close>

definition get0 :: "(str, int) dict \<Rightarrow> str \<Rightarrow> int" where
  "get0 df t = (case DAList.lookup df t of None \<Rightarrow> 0 | Some n \<Rightarrow> n)"

text \<open>The normalized token sequence of the document of a call.\<close>

definition call_tokens :: "unicode_lower \<Rightarrow> call \<Rightarrow> str list" where
  "call_tokens lc c = tokenize lc (c_text c)"

text \<open>\<open>index[t].items()\<close>, empty when the term is not a key.\<close>

definition postings_items :: "InvertedIndex \<Rightarrow> str \<Rightarrow> (str \<times> int list) list" where
  "postings_items idx t = (case DAList.lookup idx t of None \<Rightarrow> [] | Some p \<Rightarrow> DAList.impl_of p)"

text \<open>The number of entries of \<open>index[t]\<close> whose position list is not empty; the keys of a
  \<open>dict\<close> are distinct, so this is the number of distinct doc_ids with such a list.\<close>

definition count_docs :: "InvertedIndex \<Rightarrow> str \<Rightarrow> nat" where
  "count_docs idx t = length (filter (\<lambda>e. snd e \<noteq> []) (postings_items idx t))"

text \<open>The \<open>length\<close> stored in the metadata of a document.\<close>

definition stored_length :: "Documents \<Rightarrow> str \<Rightarrow> int option" where
  "stored_length docs d = Option.bind (DAList.lookup docs d) m_length"

text \<open>No key of the index has an empty postings map, and no position list is empty.\<close>

definition nonempty_inv :: "InvertedIndex \<Rightarrow> bool" where
  "nonempty_inv idx \<longleftrightarrow>
     (\<forall>t. DAList.lookup idx t \<noteq> None \<longrightarrow> (\<exists>d. positions idx t d \<noteq> None)) \<and>
     (\<forall>t d ps. positions idx t d = Some ps \<longrightarrow> ps \<noteq> [])"

text \<open>Two calls with distinct doc_ids.\<close>

definition example_calls :: "call list" where
  "example_calls =
     [\<lparr>c_doc_id = u ''doc_0'', c_title = u ''A'', c_url = u ''a'', c_text = u ''Cat sat; cat!''\<rparr>,
      \<lparr>c_doc_id = u ''doc_1'', c_title = u ''B'', c_url = u ''b'', c_text = u ''Cats''\<rparr>]"

text \<open>The postings of \<open>cat\<close> after the two calls of \<open>example_calls\<close>.\<close>

definition example_postings :: Postings where
  "example_postings =
     DAList.update (u ''doc_1'') [0] (DAList.update (u ''doc_0'') [0, 2] DAList.empty)"

text \<open>The same document added twice under one doc_id.\<close>

definition repeated_calls :: "call list" where
  "repeated_calls =
     [\<lparr>c_doc_id = u ''d'', c_title = u ''A'', c_url = u ''a'', c_text = u ''cat''\<rparr>,
      \<lparr>c_doc_id = u ''d'', c_title = u ''A'', c_url = u ''a'', c_text = u ''cat''\<rparr>]"

text \<open>The call of \<open>add_document\<close> that \<open>build_from_crawled_data\<close> makes for the page at index \<open>i\<close>.\<close>

definition page_call :: "nat \<Rightarrow> page \<Rightarrow> call" where
  "page_call i pg =
     \<lparr>c_doc_id = doc_id_of i,
      c_title = (case p_title pg of None \<Rightarrow> u ''Untitled'' | Some t \<Rightarrow> t),
      c_url = (case p_url pg of None \<Rightarrow> [] | Some a \<Rightarrow> a),
      c_text = (case p_text pg of None \<Rightarrow> [] | Some b \<Rightarrow> b)\<rparr>"

text \<open>A crawl of one page.\<close>

definition example_pages :: "page list" where
  "example_pages = [\<lparr>p_title = Some (u ''A''), p_url = Some (u ''a''), p_text = Some (u ''cat'')\<rparr>]"


section \<open>Properties of the preprocessor\<close>

lemma stem_loop_find:
  "stem_loop rules word =
     (case find (rule_applies word) rules of None \<Rightarrow> word | Some rule \<Rightarrow> rule_result word rule)"
  by (induction rules word rule: stem_loop.induct)
     (simp_all add: rule_applies_def rule_result_def Let_def)

text \<open>
  C9. The stemmer of the source is the stemmer of the specification: a word of at most 3
  characters is returned unchanged; a longer word becomes the result of the first rule,
  in the order of the table, whose suffix matches and whose result has at least 3
  characters, and stays unchanged when there is no such rule. There is a single pass:
  \<open>meetings\<close> becomes \<open>meeting\<close>, which is not stemmed again to \<open>meet\<close>.
\<close>

theorem stem_refines_spec:
  "stem word = stem_spec word \<and> stem (u ''meetings'') = u ''meeting''
     \<and> stem (u ''meeting'') = u ''meet''"
proof -
  have "stem word = stem_spec word"
    by (simp add: stem_def stem_spec_def stem_loop_find)
  moreover have "stem (u ''meetings'') = u ''meeting''"
    by (simp add: stem_def suffixes_def u_def endswith_def)
  moreover have "stem (u ''meeting'') = u ''meet''"
    by (simp add: stem_def suffixes_def u_def endswith_def)
  ultimately show ?thesis by simp
qed

lemma split_from_chars:
  "w \<in> set (split_from cur cs) \<Longrightarrow> c \<in> set w \<Longrightarrow>
     c \<in> set cur \<or> (c \<in> set cs \<and> \<not> is_space c)"
  by (induction cur cs arbitrary: w rule: split_from.induct)
     (auto split: if_splits)

lemma sub_non_alnum_chars:
  "c \<in> set (sub_non_alnum cs) \<Longrightarrow> is_lower_alnum c \<or> is_space c"
  by (auto simp: sub_non_alnum_def is_space_def)

lemma split_sub_chars:
  "w \<in> set (split (sub_non_alnum cs)) \<Longrightarrow> c \<in> set w \<Longrightarrow> is_lower_alnum c"
  using split_from_chars [of w "[]" "sub_non_alnum cs" c] sub_non_alnum_chars [of c cs]
  by (auto simp: split_def)

lemma suffixes_replacement_chars:
  "(s, r) \<in> set suffixes \<Longrightarrow> c \<in> set r \<Longrightarrow> is_lower_alnum c"
  by (auto simp: suffixes_def u_def is_lower_alnum_def)

lemma stem_loop_cases:
  "stem_loop rules word = word \<or>
   (\<exists>s r. (s, r) \<in> set rules \<and> stem_loop rules word = take (length word - length s) word @ r
      \<and> 3 \<le> length (stem_loop rules word))"
  by (induction rules word rule: stem_loop.induct) (auto simp: Let_def)

lemma stem_chars:
  assumes "\<forall>c\<in>set word. is_lower_alnum c" and "c \<in> set (stem word)"
  shows "is_lower_alnum c"
proof (cases "length word \<le> 3")
  case True
  with assms show ?thesis by (simp add: stem_def)
next
  case False
  then have eq: "stem word = stem_loop suffixes word" by (simp add: stem_def)
  from stem_loop_cases [of suffixes word] show ?thesis
  proof
    assume "stem_loop suffixes word = word"
    with assms eq show ?thesis by simp
  next
    assume "\<exists>s r. (s, r) \<in> set suffixes \<and>
       stem_loop suffixes word = take (length word - length s) word @ r \<and>
       3 \<le> length (stem_loop suffixes word)"
    then obtain s r where sr: "(s, r) \<in> set suffixes"
      and res: "stem_loop suffixes word = take (length word - length s) word @ r" by blast
    from assms(2) eq res have "c \<in> set (take (length word - length s) word) \<or> c \<in> set r"
      by simp
    then show ?thesis
    proof
      assume "c \<in> set (take (length word - length s) word)"
      then have "c \<in> set word" by (rule in_set_takeD)
      with assms(1) show ?thesis by simp
    next
      assume "c \<in> set r"
      with sr show ?thesis by (rule suffixes_replacement_chars)
    qed
  qed
qed

lemma stem_length: "2 \<le> length word \<Longrightarrow> 2 \<le> length (stem word)"
  using stem_loop_cases [of suffixes word] by (auto simp: stem_def)

lemma tokenize_loop_tokens:
  "t \<in> set (tokenize_loop words) \<Longrightarrow>
     \<exists>w \<in> set words. 2 \<le> length w \<and> w \<notin> STOP_WORDS \<and> t = stem w"
  by (induction words) (auto split: if_splits)

lemmas tokenize_eval = tokenize_def lower_def lower_at_def upt_rec split_def sub_non_alnum_def
  u_def is_lower_alnum_def is_space_def STOP_WORDS_def stem_def suffixes_def endswith_def

text \<open>
  C10. Every token that \<open>tokenize\<close> returns has at least 2 characters, all of them ASCII
  lower-case letters or digits. A token can be a stop word: \<open>cans\<close> is not a stop word
  and is stemmed to \<open>can\<close>, which is one.
\<close>

theorem tokenize_tokens_wellformed:
  "(\<forall>t \<in> set (tokenize lc text). 2 \<le> length t \<and> (\<forall>c \<in> set t. is_lower_alnum c))
   \<and> tokenize lc (u ''cans'') = [u ''can''] \<and> u ''can'' \<in> STOP_WORDS"
proof (intro conjI ballI)
  fix t assume t: "t \<in> set (tokenize lc text)"
  then have "t \<in> set (tokenize_loop (split (sub_non_alnum (lower lc text))))"
    by (simp add: tokenize_def split: if_splits)
  then obtain w where w: "w \<in> set (split (sub_non_alnum (lower lc text)))"
    and len: "2 \<le> length w" and tw: "t = stem w"
    using tokenize_loop_tokens by blast
  from len tw show "2 \<le> length t" by (simp add: stem_length)
  fix c assume "c \<in> set t"
  with tw have "c \<in> set (stem w)" by simp
  moreover have "\<forall>c\<in>set w. is_lower_alnum c" using w split_sub_chars by blast
  ultimately show "is_lower_alnum c" using stem_chars by blast
next
  show "tokenize lc (u ''cans'') = [u ''can'']"
    by (simp add: tokenize_eval)
next
  show "u ''can'' \<in> STOP_WORDS" by (simp add: STOP_WORDS_def u_def)
qed

theorem tokenize_tokens_wellformed_witness:
  "u ''cat'' \<in> set (tokenize lc_keep (u ''The Cats!'')) \<and> 2 \<le> length (u ''cat'')
     \<and> is_lower_alnum 99"
proof -
  have m: "u ''cat'' \<in> set (tokenize lc_keep (u ''The Cats!''))"
    by (simp add: tokenize_eval)
  have c: "(99::nat) \<in> set (u ''cat'')" by (simp add: u_def)
  from tokenize_tokens_wellformed [of lc_keep "u ''The Cats!''"] m c
  have "2 \<le> length (u ''cat'') \<and> is_lower_alnum 99" by blast
  with m show ?thesis by simp
qed


section \<open>Properties of the indexer\<close>

lemma lookup_add_position:
  "DAList.lookup (add_position d pos tok idx) t =
     (if t = tok
      then Some (DAList.update d (plist idx tok d @ [pos])
                  (case DAList.lookup idx tok of None \<Rightarrow> DAList.empty | Some p \<Rightarrow> p))
      else DAList.lookup idx t)"
  by (auto simp: add_position_def Let_def plist_def positions_def split: option.splits)

lemma positions_add_position:
  "positions (add_position d pos tok idx) t d' =
     (if t = tok \<and> d' = d then Some (plist idx t d @ [pos]) else positions idx t d')"
  by (auto simp: positions_def lookup_add_position split: option.splits)

lemma plist_add_position:
  "plist (add_position d pos tok idx) t d' =
     (if t = tok \<and> d' = d then plist idx t d @ [pos] else plist idx t d')"
  by (simp add: plist_def positions_add_position)

lemma lookup_bump_doc_freq:
  "DAList.lookup (bump_doc_freq tok df) t =
     (if t = tok then Some (get0 df tok + 1) else DAList.lookup df t)"
  by (simp add: bump_doc_freq_def get0_def)

lemma occurrences_empty: "occurrences pos toks t = [] \<longleftrightarrow> t \<notin> set toks"
  by (induction toks arbitrary: pos) auto

lemma set_occurrences:
  "set (occurrences pos toks t) = {pos + int j | j. j < length toks \<and> toks ! j = t}"
proof (induction toks arbitrary: pos)
  case Nil
  then show ?case by simp
next
  case (Cons tok toks)
  have *: "{pos + int j | j. j < Suc (length toks) \<and> (tok # toks) ! j = t}
      = (if tok = t then {pos} else {}) \<union> {pos + 1 + int j | j. j < length toks \<and> toks ! j = t}"
    (is "?L = ?R")
  proof (intro set_eqI iffI)
    fix x assume "x \<in> ?L"
    then obtain j where j: "x = pos + int j" "j < Suc (length toks)" "(tok # toks) ! j = t" by blast
    show "x \<in> ?R"
    proof (cases j)
      case 0
      with j show ?thesis by simp
    next
      case (Suc k)
      with j have "x = pos + 1 + int k" "k < length toks" "toks ! k = t" by simp_all
      then show ?thesis by blast
    qed
  next
    fix x assume "x \<in> ?R"
    then consider "tok = t" "x = pos"
      | k where "x = pos + 1 + int k" "k < length toks" "toks ! k = t"
      by (auto split: if_splits)
    then show "x \<in> ?L"
    proof cases
      case 1
      then have "x = pos + int 0 \<and> 0 < Suc (length toks) \<and> (tok # toks) ! 0 = t" by simp
      then show ?thesis by blast
    next
      case 2
      then have "x = pos + int (Suc k) \<and> Suc k < Suc (length toks) \<and> (tok # toks) ! Suc k = t"
        by simp
      then show ?thesis by blast
    qed
  qed
  show ?case using Cons.IH [of "pos + 1"] * by auto
qed

lemma occurrences_lower: "i \<in> set (occurrences pos toks t) \<Longrightarrow> pos \<le> i"
  by (auto simp: set_occurrences)

lemma sorted_occurrences: "sorted_wrt (<) (occurrences pos toks t)"
proof (induction toks arbitrary: pos)
  case Nil
  then show ?case by simp
next
  case (Cons tok toks)
  have "\<forall>i \<in> set (occurrences (pos + 1) toks t). pos < i"
    using occurrences_lower [of _ "pos + 1" toks t] by force
  with Cons.IH [of "pos + 1"] show ?case by simp
qed

lemma documents_add_tokens: "documents (add_tokens d pos toks seen s) = documents s"
  by (induction toks arbitrary: pos seen s) (simp_all add: Let_def)

lemma positions_add_tokens_same:
  "positions (index (add_tokens d pos toks seen s)) t d =
     (if occurrences pos toks t \<noteq> []
      then Some (plist (index s) t d @ occurrences pos toks t)
      else positions (index s) t d)"
proof (induction toks arbitrary: pos seen s)
  case Nil
  then show ?case by simp
next
  case (Cons tok toks)
  show ?case
    by (simp add: Let_def Cons.IH positions_add_position plist_add_position)
qed

lemma positions_add_tokens_other:
  "d' \<noteq> d \<Longrightarrow> positions (index (add_tokens d pos toks seen s)) t d' = positions (index s) t d'"
proof (induction toks arbitrary: pos seen s)
  case Nil
  then show ?case by simp
next
  case (Cons tok toks)
  then show ?case
    by (simp add: Let_def positions_add_position)
qed

lemma lookup_index_add_tokens:
  "(DAList.lookup (index (add_tokens d pos toks seen s)) t = None)
     = (DAList.lookup (index s) t = None \<and> t \<notin> set toks)"
proof (induction toks arbitrary: pos seen s)
  case Nil
  then show ?case by simp
next
  case (Cons tok toks)
  show ?case
    by (auto simp: Let_def Cons.IH lookup_add_position)
qed

lemma get0_bump: "get0 (bump_doc_freq tok df) t = (if t = tok then get0 df tok + 1 else get0 df t)"
  by (simp add: get0_def lookup_bump_doc_freq)

lemma doc_freq_add_tokens:
  "DAList.lookup (doc_freq (add_tokens d pos toks seen s)) t =
     (if t \<in> set toks \<and> t \<notin> seen then Some (get0 (doc_freq s) t + 1)
      else DAList.lookup (doc_freq s) t)"
proof (induction toks arbitrary: pos seen s)
  case Nil
  then show ?case by simp
next
  case (Cons tok toks)
  show ?case
    by (auto simp: Let_def Cons.IH lookup_bump_doc_freq get0_bump get0_def)
qed

lemma documents_add_call:
  "documents (add_call lc c s) =
     DAList.update (c_doc_id c)
       \<lparr>m_title = Some (c_title c), m_url = Some (c_url c),
        m_snippet = Some (make_snippet (c_text c) SNIPPET_LENGTH),
        m_length = Some (int (length (call_tokens lc c)))\<rparr> (documents s)"
  by (simp add: add_call_def add_document_def Let_def documents_add_tokens call_tokens_def)

lemma positions_add_call:
  "positions (index (add_call lc c s)) t d =
     (if d = c_doc_id c \<and> t \<in> set (call_tokens lc c)
      then Some (plist (index s) t d @ occurrences 0 (call_tokens lc c) t)
      else positions (index s) t d)"
  by (cases "d = c_doc_id c")
     (simp_all add: add_call_def add_document_def Let_def call_tokens_def
       positions_add_tokens_same positions_add_tokens_other occurrences_empty)

lemma lookup_index_add_call:
  "(DAList.lookup (index (add_call lc c s)) t = None)
     = (DAList.lookup (index s) t = None \<and> t \<notin> set (call_tokens lc c))"
  by (simp add: add_call_def add_document_def Let_def call_tokens_def lookup_index_add_tokens)

lemma doc_freq_add_call:
  "DAList.lookup (doc_freq (add_call lc c s)) t =
     (if t \<in> set (call_tokens lc c) then Some (get0 (doc_freq s) t + 1)
      else DAList.lookup (doc_freq s) t)"
  by (simp add: add_call_def add_document_def Let_def call_tokens_def doc_freq_add_tokens)

lemma add_documents_Cons:
  "add_documents lc (c # calls) s = add_documents lc calls (add_call lc c s)"
  by (simp add: add_documents_def)

lemma add_documents_Nil: "add_documents lc [] s = s"
  by (simp add: add_documents_def)

lemma doc_freq_add_documents:
  "DAList.lookup (doc_freq (add_documents lc calls s)) t =
     (if filter (\<lambda>c. t \<in> set (call_tokens lc c)) calls = [] then DAList.lookup (doc_freq s) t
      else Some (get0 (doc_freq s) t
                  + int (length (filter (\<lambda>c. t \<in> set (call_tokens lc c)) calls))))"
proof (induction calls arbitrary: s)
  case Nil
  then show ?case by (simp add: add_documents_Nil)
next
  case (Cons c calls)
  show ?case
    by (simp add: add_documents_Cons Cons.IH doc_freq_add_call get0_def)
qed

lemma lookup_index_add_documents:
  "(DAList.lookup (index (add_documents lc calls s)) t = None)
     = (DAList.lookup (index s) t = None \<and> (\<forall>c \<in> set calls. t \<notin> set (call_tokens lc c)))"
proof (induction calls arbitrary: s)
  case Nil
  then show ?case by (simp add: add_documents_Nil)
next
  case (Cons c calls)
  show ?case
    by (auto simp: add_documents_Cons Cons.IH lookup_index_add_call)
qed

lemma positions_add_documents:
  assumes "distinct (map c_doc_id calls)"
    and "\<forall>c \<in> set calls. \<forall>t. positions (index s) t (c_doc_id c) = None"
  shows "positions (index (add_documents lc calls s)) t d = Some ps \<longleftrightarrow>
     positions (index s) t d = Some ps \<or>
     (\<exists>c \<in> set calls. c_doc_id c = d \<and> t \<in> set (call_tokens lc c)
         \<and> ps = occurrences 0 (call_tokens lc c) t)"
  using assms
proof (induction calls arbitrary: s)
  case Nil
  then show ?case by (simp add: add_documents_Nil)
next
  case (Cons c calls)
  have fresh: "\<forall>t. positions (index s) t (c_doc_id c) = None"
    using Cons.prems(2) by simp
  then have pl: "\<And>t. plist (index s) t (c_doc_id c) = []"
    by (simp add: plist_def)
  have fresh': "\<forall>c' \<in> set calls. \<forall>t. positions (index (add_call lc c s)) t (c_doc_id c') = None"
  proof (intro ballI allI)
    fix c' t assume "c' \<in> set calls"
    then have "c_doc_id c' \<in> c_doc_id ` set calls" by (rule imageI)
    moreover have "c_doc_id c \<notin> c_doc_id ` set calls" using Cons.prems(1) by simp
    ultimately have "c_doc_id c' \<noteq> c_doc_id c" by metis
    moreover have "positions (index s) t (c_doc_id c') = None"
      using Cons.prems(2) \<open>c' \<in> set calls\<close> by simp
    ultimately have "c_doc_id c' \<noteq> c_doc_id c" "positions (index s) t (c_doc_id c') = None"
      by simp_all
    then show "positions (index (add_call lc c s)) t (c_doc_id c') = None"
      by (simp add: positions_add_call)
  qed
  have "distinct (map c_doc_id calls)" using Cons.prems(1) by simp
  from Cons.IH [OF this fresh']
  show ?case
    using fresh pl by (auto simp: add_documents_Cons positions_add_call)
qed

lemma documents_add_documents_other:
  "d \<notin> c_doc_id ` set calls \<Longrightarrow>
     DAList.lookup (documents (add_documents lc calls s)) d = DAList.lookup (documents s) d"
proof (induction calls arbitrary: s)
  case Nil
  then show ?case by (simp add: add_documents_Nil)
next
  case (Cons c calls)
  then show ?case
    by (auto simp: add_documents_Cons documents_add_call DAList.lookup_update)
qed

lemma documents_add_documents:
  assumes "distinct (map c_doc_id calls)" and "c \<in> set calls"
  shows "stored_length (documents (add_documents lc calls s)) (c_doc_id c)
     = Some (int (length (call_tokens lc c)))"
  using assms
proof (induction calls arbitrary: s)
  case Nil
  then show ?case by simp
next
  case (Cons c' calls)
  show ?case
  proof (cases "c = c'")
    case True
    with Cons.prems(1) have "c_doc_id c \<notin> c_doc_id ` set calls" by auto
    then show ?thesis
      using True
      by (simp add: add_documents_Cons stored_length_def documents_add_documents_other
          documents_add_call)
  next
    case False
    with Cons.prems have "c \<in> set calls" "distinct (map c_doc_id calls)" by auto
    then show ?thesis
      using Cons.IH by (simp add: add_documents_Cons)
  qed
qed

lemma nonempty_inv_add_call:
  assumes "nonempty_inv (index s)"
  shows "nonempty_inv (index (add_call lc c s))"
  unfolding nonempty_inv_def
proof (intro conjI allI impI)
  fix t assume k: "DAList.lookup (index (add_call lc c s)) t \<noteq> None"
  show "\<exists>d. positions (index (add_call lc c s)) t d \<noteq> None"
  proof (cases "t \<in> set (call_tokens lc c)")
    case True
    then have "positions (index (add_call lc c s)) t (c_doc_id c) \<noteq> None"
      by (simp add: positions_add_call)
    then show ?thesis by blast
  next
    case False
    with k have "DAList.lookup (index s) t \<noteq> None"
      by (simp add: lookup_index_add_call)
    with assms obtain d where "positions (index s) t d \<noteq> None"
      unfolding nonempty_inv_def by blast
    with False have "positions (index (add_call lc c s)) t d \<noteq> None"
      by (simp add: positions_add_call)
    then show ?thesis by blast
  qed
next
  fix t d ps assume "positions (index (add_call lc c s)) t d = Some ps"
  then show "ps \<noteq> []"
    using assms
    by (auto simp: positions_add_call nonempty_inv_def occurrences_empty split: if_splits)
qed

lemma nonempty_inv_add_documents:
  "nonempty_inv (index s) \<Longrightarrow> nonempty_inv (index (add_documents lc calls s))"
  by (induction calls arbitrary: s)
     (simp_all add: add_documents_Nil add_documents_Cons nonempty_inv_add_call)

lemma nonempty_inv_init: "nonempty_inv (index Indexer_init)"
  by (simp add: nonempty_inv_def Indexer_init_def positions_def)

lemma positions_Some_lookup:
  "DAList.lookup idx t = Some p \<Longrightarrow> positions idx t d = DAList.lookup p d"
  by (simp add: positions_def)

lemma count_docs_card:
  "count_docs idx t = card {d. \<exists>ps. positions idx t d = Some ps \<and> ps \<noteq> []}"
proof (cases "DAList.lookup idx t")
  case None
  then show ?thesis by (simp add: count_docs_def postings_items_def positions_def)
next
  case (Some p)
  let ?ys = "filter (\<lambda>e. snd e \<noteq> []) (DAList.impl_of p)"
  have dist: "distinct (map fst (DAList.impl_of p))" by simp
  then have dys: "distinct (map fst ?ys)" by (rule distinct_map_filter)
  have "{d. \<exists>ps. positions idx t d = Some ps \<and> ps \<noteq> []} = set (map fst ?ys)"
    using Some dist by (force simp: positions_def DAList.lookup.rep_eq)
  then have "card {d. \<exists>ps. positions idx t d = Some ps \<and> ps \<noteq> []} = length (map fst ?ys)"
    using dys by (simp only: distinct_card)
  with Some show ?thesis by (simp add: count_docs_def postings_items_def)
qed

lemma positions_init: "positions (index Indexer_init) t d = None"
  by (simp add: positions_def Indexer_init_def)

lemma positions_built:
  assumes "distinct (map c_doc_id calls)"
  shows "positions (index (add_documents lc calls Indexer_init)) t d = Some ps \<longleftrightarrow>
     (\<exists>c \<in> set calls. c_doc_id c = d \<and> t \<in> set (call_tokens lc c)
         \<and> ps = occurrences 0 (call_tokens lc c) t)"
  using positions_add_documents [OF assms, of Indexer_init lc t d ps]
  by (simp add: positions_init)

text \<open>
  C1, amended. After any sequence of \<open>add_document\<close> calls with pairwise distinct doc_ids,
  from a freshly constructed \<open>Indexer\<close>: for every term \<open>t\<close> that is a key of the index,
  \<open>doc_freq[t]\<close> is the number of distinct doc_ids \<open>d\<close> with a non-empty position list
  \<open>index[t][d]\<close> (which is what \<open>count_docs\<close> computes).
\<close>

theorem doc_freq_counts_documents:
  assumes "distinct (map c_doc_id calls)"
    and "DAList.lookup (index (add_documents lc calls Indexer_init)) t = Some p"
  shows "DAList.lookup (doc_freq (add_documents lc calls Indexer_init)) t
           = Some (int (card {d. \<exists>ps. DAList.lookup p d = Some ps \<and> ps \<noteq> []}))
         \<and> card {d. \<exists>ps. DAList.lookup p d = Some ps \<and> ps \<noteq> []}
           = count_docs (index (add_documents lc calls Indexer_init)) t"
proof -
  let ?S = "add_documents lc calls Indexer_init"
  let ?cs = "filter (\<lambda>c. t \<in> set (call_tokens lc c)) calls"
  have pos: "\<And>d. positions (index ?S) t d = DAList.lookup p d"
    using assms(2) by (rule positions_Some_lookup)
  have eq: "{d. \<exists>ps. DAList.lookup p d = Some ps \<and> ps \<noteq> []} = set (map c_doc_id ?cs)"
    by (auto simp: pos [symmetric] positions_built [OF assms(1)] occurrences_empty)
  have "distinct (map c_doc_id ?cs)"
    using assms(1) by (rule distinct_map_filter)
  then have "card (set (map c_doc_id ?cs)) = length (map c_doc_id ?cs)"
    by (rule distinct_card)
  then have card: "card {d. \<exists>ps. DAList.lookup p d = Some ps \<and> ps \<noteq> []} = length ?cs"
    by (simp only: eq length_map)
  have "?cs \<noteq> []"
    using assms(2) lookup_index_add_documents [of lc calls Indexer_init t]
    by (auto simp: filter_empty_conv Indexer_init_def)
  then have "DAList.lookup (doc_freq ?S) t = Some (int (length ?cs))"
    by (simp add: doc_freq_add_documents get0_def Indexer_init_def)
  moreover have "count_docs (index ?S) t = card {d. \<exists>ps. DAList.lookup p d = Some ps \<and> ps \<noteq> []}"
    by (simp add: count_docs_card pos)
  ultimately show ?thesis using card by simp
qed

text \<open>
  C5, amended. After any sequence of \<open>add_document\<close> calls from a freshly constructed
  \<open>Indexer\<close>, no term key has an empty postings map and no position list is empty. When
  the doc_ids of the calls are pairwise distinct, every position list \<open>index[t][d]\<close> is
  strictly increasing, and its elements are indices, at least 0 and below the stored
  length of \<open>d\<close>, at which \<open>t\<close> stands in the normalized token sequence of \<open>d\<close>.
\<close>

theorem postings_wellformed:
  assumes "DAList.lookup (index (add_documents lc calls Indexer_init)) t = Some p"
  shows "DAList.impl_of p \<noteq> [] \<and>
    (\<forall>d ps. DAList.lookup p d = Some ps \<longrightarrow>
       ps \<noteq> [] \<and>
       (distinct (map c_doc_id calls) \<longrightarrow>
          sorted_wrt (<) ps \<and>
          (\<exists>c \<in> set calls. c_doc_id c = d \<and>
             stored_length (documents (add_documents lc calls Indexer_init)) d
               = Some (int (length (call_tokens lc c))) \<and>
             (\<forall>i \<in> set ps. 0 \<le> i \<and> i < int (length (call_tokens lc c))
                 \<and> call_tokens lc c ! nat i = t))))"
proof (intro conjI allI impI)
  let ?S = "add_documents lc calls Indexer_init"
  have inv: "nonempty_inv (index ?S)"
    using nonempty_inv_init by (rule nonempty_inv_add_documents)
  have pos: "\<And>d. positions (index ?S) t d = DAList.lookup p d"
    using assms by (rule positions_Some_lookup)
  from inv assms obtain d where "positions (index ?S) t d \<noteq> None"
    unfolding nonempty_inv_def by blast
  then have "DAList.lookup p d \<noteq> None" by (simp add: pos)
  then show "DAList.impl_of p \<noteq> []" by (auto simp: DAList.lookup.rep_eq)
  fix d ps assume l: "DAList.lookup p d = Some ps"
  then have "positions (index ?S) t d = Some ps" by (simp add: pos)
  with inv show "ps \<noteq> []" unfolding nonempty_inv_def by blast
  assume dist: "distinct (map c_doc_id calls)"
  from l have "positions (index ?S) t d = Some ps" by (simp add: pos)
  then obtain c where c: "c \<in> set calls" "c_doc_id c = d" "t \<in> set (call_tokens lc c)"
      "ps = occurrences 0 (call_tokens lc c) t"
    using positions_built [OF dist] by blast
  show "sorted_wrt (<) ps" using c(4) by (simp add: sorted_occurrences)
  have "stored_length (documents ?S) d = Some (int (length (call_tokens lc c)))"
    using documents_add_documents [OF dist c(1)] c(2) by simp
  moreover have "\<forall>i \<in> set ps. 0 \<le> i \<and> i < int (length (call_tokens lc c))
                 \<and> call_tokens lc c ! nat i = t"
    using c(4) by (auto simp: set_occurrences)
  ultimately show "\<exists>c \<in> set calls. c_doc_id c = d \<and>
      stored_length (documents ?S) d = Some (int (length (call_tokens lc c))) \<and>
      (\<forall>i \<in> set ps. 0 \<le> i \<and> i < int (length (call_tokens lc c))
          \<and> call_tokens lc c ! nat i = t)"
    using c(1,2) by blast
qed

lemmas dict_eval = DAList.lookup.rep_eq DAList.update.rep_eq DAList.empty.rep_eq

lemmas index_eval = add_documents_def add_call_def add_document_def add_position_def
  bump_doc_freq_def Indexer_init_def Let_def

lemma tokenize_example_0: "tokenize lc (u ''Cat sat; cat!'') = [u ''cat'', u ''sat'', u ''cat'']"
  by (simp add: tokenize_eval)

lemma tokenize_example_1: "tokenize lc (u ''Cats'') = [u ''cat'']"
  by (simp add: tokenize_eval)

lemma tokenize_cat: "tokenize lc (u ''cat'') = [u ''cat'']"
  by (simp add: tokenize_eval)

lemma u_neq: "u ''cat'' \<noteq> u ''sat''" "u ''sat'' \<noteq> u ''cat''" "u ''doc_0'' \<noteq> u ''doc_1''"
  "u ''doc_1'' \<noteq> u ''doc_0''"
  by (simp_all add: u_def)

lemma example_index_cat:
  "DAList.lookup (index (add_documents lc example_calls Indexer_init)) (u ''cat'')
     = Some example_postings"
  by (simp add: example_calls_def example_postings_def index_eval tokenize_example_0
      tokenize_example_1 u_neq)

lemma example_distinct: "distinct (map c_doc_id example_calls)"
  by (simp add: example_calls_def u_neq)

lemma example_count: "count_docs (index (add_documents lc example_calls Indexer_init)) (u ''cat'') = 2"
proof -
  have "postings_items (index (add_documents lc example_calls Indexer_init)) (u ''cat'')
      = DAList.impl_of example_postings"
    by (simp add: postings_items_def example_index_cat)
  then show ?thesis
    by (simp add: count_docs_def example_postings_def DAList.update.rep_eq DAList.empty.rep_eq
        u_neq)
qed

text \<open>The theorem at the two calls of \<open>example_calls\<close> and the term \<open>cat\<close>.\<close>

theorem doc_freq_counts_documents_witness:
  "distinct (map c_doc_id example_calls) \<and>
   DAList.lookup (index (add_documents lc_keep example_calls Indexer_init)) (u ''cat'')
     = Some example_postings \<and>
   DAList.lookup (doc_freq (add_documents lc_keep example_calls Indexer_init)) (u ''cat'') = Some 2"
  using doc_freq_counts_documents [OF example_distinct example_index_cat, of lc_keep]
    example_distinct example_index_cat [of lc_keep] example_count [of lc_keep]
  by simp

text \<open>
  C1 as stated, for any sequence of calls, fails: after two calls with the same doc_id
  and the text \<open>cat\<close>, \<open>doc_freq[cat]\<close> is 2 and one doc_id has postings under \<open>cat\<close>.
\<close>

theorem doc_freq_repeated_doc_id_counterexample:
  "DAList.lookup (doc_freq (add_documents lc_keep repeated_calls Indexer_init)) (u ''cat'') = Some 2
   \<and> count_docs (index (add_documents lc_keep repeated_calls Indexer_init)) (u ''cat'') = 1"
  by (simp add: repeated_calls_def index_eval tokenize_cat count_docs_def postings_items_def
      dict_eval)

text \<open>The theorem at \<open>example_calls\<close>, the term \<open>cat\<close> and the document \<open>doc_0\<close>.\<close>

theorem postings_wellformed_witness:
  "DAList.lookup (index (add_documents lc_keep example_calls Indexer_init)) (u ''cat'')
     = Some example_postings \<and>
   DAList.lookup example_postings (u ''doc_0'') = Some [0, 2] \<and>
   distinct (map c_doc_id example_calls) \<and> (2::int) \<in> set [0, 2] \<and>
   DAList.impl_of example_postings \<noteq> [] \<and> sorted_wrt (<) [0, 2::int] \<and>
   stored_length (documents (add_documents lc_keep example_calls Indexer_init)) (u ''doc_0'')
     = Some 3"
proof -
  have l: "DAList.lookup example_postings (u ''doc_0'') = Some [0, 2]"
    by (simp add: example_postings_def u_neq)
  have s: "stored_length (documents (add_documents lc_keep example_calls Indexer_init))
      (u ''doc_0'') = Some 3"
    by (simp add: stored_length_def example_calls_def index_eval documents_add_tokens
        tokenize_example_0 u_neq)
  from postings_wellformed [OF example_index_cat, of lc_keep] l example_distinct
  have "DAList.impl_of example_postings \<noteq> [] \<and> sorted_wrt (<) [0, 2::int]"
    by blast
  with l s example_distinct example_index_cat [of lc_keep] show ?thesis by simp
qed

text \<open>
  C5 as stated, for any sequence of calls, fails: after two calls with the same doc_id
  and the text \<open>cat\<close>, the position list of \<open>cat\<close> is \<open>[0, 0]\<close>, which is not strictly
  increasing.
\<close>

theorem postings_repeated_doc_id_counterexample:
  "positions (index (add_documents lc_keep repeated_calls Indexer_init)) (u ''cat'') (u ''d'')
     = Some [0, 0]
   \<and> \<not> sorted_wrt (<) [0, 0::int]"
  by (simp add: repeated_calls_def index_eval tokenize_cat positions_def)


section \<open>Properties of the bulk build\<close>

lemma add_page_call: "add_page lc i pg s = add_call lc (page_call i pg) s"
  by (simp add: add_page_def add_call_def page_call_def)

lemma build_loop_add_documents:
  "build_loop lc i pages s
     = add_documents lc (map (\<lambda>j. page_call (i + j) (pages ! j)) [0..<length pages]) s"
proof (induction pages arbitrary: i s)
  case Nil
  then show ?case by (simp add: add_documents_Nil)
next
  case (Cons pg pages)
  have "map (\<lambda>j. page_call (i + j) ((pg # pages) ! j)) [0..<length (pg # pages)]
      = page_call i pg # map (\<lambda>j. page_call (Suc i + j) (pages ! j)) [0..<length pages]"
    by (simp add: map_upt_Suc del: upt_Suc)
  then show ?case
    by (simp add: Cons.IH add_documents_Cons add_page_call)
qed

lemma decode_str_of_nat: "foldl (\<lambda>a c. 10 * a + (c - 48)) 0 (str_of_nat n) = n"
proof (induction n rule: str_of_nat.induct)
  case (1 n)
  show ?case
  proof (cases "n < 10")
    case True
    then show ?thesis by (subst str_of_nat.simps) simp
  next
    case False
    with 1 show ?thesis by (subst str_of_nat.simps) simp
  qed
qed

lemma str_of_nat_inj:
  assumes "str_of_nat m = str_of_nat n"
  shows "m = n"
proof -
  have "foldl (\<lambda>a c. 10 * a + (c - 48)) 0 (str_of_nat m)
      = foldl (\<lambda>a c. 10 * a + (c - 48)) 0 (str_of_nat n)"
    using assms by (rule arg_cong)
  then show ?thesis by (simp only: decode_str_of_nat)
qed

lemma doc_id_of_inj: "doc_id_of i = doc_id_of j \<longleftrightarrow> i = j"
  by (auto simp: doc_id_of_def dest: str_of_nat_inj)

lemma distinct_doc_ids: "distinct (map doc_id_of [i..<j])"
  by (simp add: distinct_map inj_on_def doc_id_of_inj)

lemma keys_documents_add_call:
  "keys (documents (add_call lc c s)) =
     (if c_doc_id c \<in> set (keys (documents s)) then keys (documents s)
      else keys (documents s) @ [c_doc_id c])"
  by (simp add: keys_def documents_add_call DAList.update.rep_eq update_keys)

lemma keys_documents_build_loop:
  "\<forall>j \<ge> i. doc_id_of j \<notin> set (keys (documents s)) \<Longrightarrow>
     keys (documents (build_loop lc i pages s))
       = keys (documents s) @ map doc_id_of [i..<i + length pages]"
proof (induction pages arbitrary: i s)
  case Nil
  then show ?case by simp
next
  case (Cons pg pages)
  have k: "keys (documents (add_page lc i pg s)) = keys (documents s) @ [doc_id_of i]"
    using Cons.prems by (simp add: add_page_call keys_documents_add_call page_call_def)
  have "\<forall>j \<ge> Suc i. doc_id_of j \<notin> set (keys (documents (add_page lc i pg s)))"
    using Cons.prems by (auto simp: k doc_id_of_inj)
  from Cons.IH [OF this] show ?case
    by (simp add: k upt_conv_Cons del: upt_Suc)
qed

lemma doc_id_of_examples:
  "doc_id_of 0 = u ''doc_0''" "doc_id_of 1 = u ''doc_1''" "doc_id_of 12 = u ''doc_12''"
  by (simp_all add: doc_id_of_def str_of_nat.simps u_def)

text \<open>
  C4, amended. For every sequence of pages, \<open>build_from_crawled_data\<close> calls
  \<open>add_document\<close> once for each page, in input order, with the doc_ids \<open>doc_0\<close>,
  \<open>doc_1\<close>, ... counted from 0, on the structures that the \<open>Indexer\<close> holds (it does not
  clear them). On a freshly constructed \<open>Indexer\<close> the documents of the result are
  exactly \<open>doc_0\<close>, ..., \<open>doc_(n-1)\<close>, in this order, and these doc_ids are pairwise
  distinct.
\<close>

theorem build_from_crawled_data_sequential:
  "build_from_crawled_data lc self pages
     = add_documents lc (map (\<lambda>i. page_call i (pages ! i)) [0..<length pages]) self
   \<and> keys (documents (build_from_crawled_data lc Indexer_init pages))
     = map doc_id_of [0..<length pages]
   \<and> distinct (map doc_id_of [0..<length pages])
   \<and> doc_id_of 0 = u ''doc_0'' \<and> doc_id_of 1 = u ''doc_1'' \<and> doc_id_of 12 = u ''doc_12''"
proof -
  have "keys (documents (build_loop lc 0 pages Indexer_init))
      = keys (documents Indexer_init) @ map doc_id_of [0..<0 + length pages]"
    by (rule keys_documents_build_loop) (simp add: keys_def Indexer_init_def DAList.empty.rep_eq)
  then have "keys (documents (build_from_crawled_data lc Indexer_init pages))
      = map doc_id_of [0..<length pages]"
    by (simp add: build_from_crawled_data_def keys_def Indexer_init_def DAList.empty.rep_eq)
  moreover have "build_from_crawled_data lc self pages
     = add_documents lc (map (\<lambda>i. page_call i (pages ! i)) [0..<length pages]) self"
    using build_loop_add_documents [of lc 0 pages self] by (simp add: build_from_crawled_data_def)
  ultimately show ?thesis
    using distinct_doc_ids [of 0 "length pages"] doc_id_of_examples by simp
qed

text \<open>
  C4 as stated fails: a second call of \<open>build_from_crawled_data\<close> on the same \<open>Indexer\<close>
  does not start from an empty index. After two builds of the one-page crawl
  \<open>example_pages\<close> the document frequency of \<open>cat\<close> is 2, not the 1 of a single build,
  while \<open>doc_0\<close> is still the only document.
\<close>

theorem build_twice_appends_counterexample:
  "DAList.lookup (doc_freq (build_from_crawled_data lc_keep Indexer_init example_pages))
     (u ''cat'') = Some 1
   \<and> DAList.lookup (doc_freq (build_from_crawled_data lc_keep
        (build_from_crawled_data lc_keep Indexer_init example_pages) example_pages))
     (u ''cat'') = Some 2
   \<and> keys (documents (build_from_crawled_data lc_keep
        (build_from_crawled_data lc_keep Indexer_init example_pages) example_pages))
     = [u ''doc_0'']"
  by (simp add: build_from_crawled_data_def add_page_def example_pages_def index_eval
      tokenize_cat keys_def dict_eval documents_add_tokens doc_id_of_examples)

end
